theory Spec2Isabelle
  imports Complex_Main
begin

section \<open>Cassie: the connection to the Cassandra server\<close>

text \<open>
  The class \<open>Cassie\<close> holds the diagnostic streams, the consistency-error counters and the
  two tables that correlate a delayed write with its completion signal. JavaScript handles
  one event to completion before the next, so each handler is a function from the state
  before the event to the state after it.

  Values written and timestamps (\<open>Date.now()\<close>, milliseconds) are integers. Tokens are
  the strings the server sends. The object \<open>pending\<close> is a plain object used as a table from
  token to deferred: besides the entries stored in it, it has the members it inherits from
  its prototype.
\<close>

text \<open>An entry of \<open>requests\<close> or of \<open>notifications\<close>: \<open>{value, time}\<close>.\<close>

record stamped =
  val :: int
  time :: int

text \<open>An entry of \<open>intervals\<close>: the time a write to Cassandra was in flight.\<close>

record interval =
  start :: int
  finish :: int

text \<open>
  Modelled from the spec: the class \<open>Deferred\<close> of \<open>./deferred\<close>, a one-shot completion
  handle. The only continuation ever attached to one is that of \<open>write\<close>, which closes the
  interval opened by that call and fulfils its caller; so a deferred is the number of the
  \<open>write\<close> call that waits on it and the \<open>start\<close> of the interval that call opened.
\<close>

record deferred =
  waiter :: nat
  opened :: int

text \<open>
  Modelled from the spec: the names of the members of a \<open>Deferred\<close> that the class \<open>Cassie\<close>
  uses, \<open>deferred.promise\<close> and \<open>resolve()\<close>. None of them has a method \<open>resolve\<close> of its own.
\<close>

definition deferredMembers :: "string list" where
  "deferredMembers = [''promise'', ''resolve'']"

text \<open>
  The names of the members every object inherits from \<open>Object.prototype\<close>. All are functions
  but \<open>__proto__\<close>, which reads and sets the prototype of the object.
\<close>

definition inheritedMembers :: "string list" where
  "inheritedMembers =
     [''constructor'', ''__defineGetter__'', ''__defineSetter__'', ''hasOwnProperty'',
      ''__lookupGetter__'', ''__lookupSetter__'', ''isPrototypeOf'', ''propertyIsEnumerable'',
      ''toString'', ''valueOf'', ''__proto__'', ''toLocaleString'']"

text \<open>
  The prototype of the object \<open>pending\<close>: \<open>Object.prototype\<close> at first; the assignment
  \<open>pending['__proto__'] = deferred\<close> stores no entry and makes the deferred the prototype,
  which is then a deferred not yet resolved, or one that has been resolved.
\<close>

datatype prototype = ObjectPrototype | Unresolved deferred | Resolved

datatype jsError = TypeError

record cassie =
  count :: nat
  requests :: "stamped list"
  notifications :: "stamped list"
  intervals :: "interval list"
  pending :: "string \<rightharpoonup> deferred"
  finished :: "string list"
  localDetectionErrors :: nat
  globalDetectionErrors :: nat
  notPersistedErrors :: nat
  delayedRequests :: nat
  dbWrites :: "int list"
  pendingProto :: prototype

text \<open>The state the constructor builds.\<close>

definition init :: cassie where
  "init = \<lparr> count = 0, requests = [], notifications = [], intervals = [],
            pending = Map.empty, finished = [],
            localDetectionErrors = 0, globalDetectionErrors = 0, notPersistedErrors = 0,
            delayedRequests = 0, dbWrites = [], pendingProto = ObjectPrototype \<rparr>"

subsection \<open>The \<open>consistencyError\<close> listener\<close>

definition startsWith :: "string \<Rightarrow> string \<Rightarrow> bool" where
  "startsWith msg p = (take (length p) msg = p)"

definition consistencyError :: "string \<Rightarrow> cassie \<Rightarrow> cassie" where
  "consistencyError msg s =
     (if startsWith msg ''Local Detection''
        then s\<lparr>localDetectionErrors := localDetectionErrors s + 1\<rparr>
      else if startsWith msg ''Global detection concurrent writes''
        then s\<lparr>globalDetectionErrors := globalDetectionErrors s + 1\<rparr>
      else if startsWith msg ''Global detection update not persisted''
        then s\<lparr>notPersistedErrors := notPersistedErrors s + 1\<rparr>
      else s)"

subsection \<open>The \<open>finishedProcessing\<close> listener\<close>

text \<open>
  \<open>msg.slice(msg.indexOf(' ') + 1)\<close>: the text after the first space; \<open>indexOf\<close> is \<open>-1\<close>
  when there is no space, and the slice is then the whole message.
\<close>

definition tokenOf :: "string \<Rightarrow> string" where
  "tokenOf msg =
     (if CHR '' '' \<in> set msg then tl (dropWhile (\<lambda>c. c \<noteq> CHR '' '') msg) else msg)"

text \<open>
  Whether \<open>pending[k]\<close>, for a name \<open>k\<close> with no entry stored, is a member inherited from the
  prototype: one of \<open>Object.prototype\<close>, or of the deferred when a deferred is the prototype.
\<close>

definition inherits :: "cassie \<Rightarrow> string \<Rightarrow> bool" where
  "inherits s k =
     (k \<in> set inheritedMembers
      \<or> (pendingProto s \<noteq> ObjectPrototype \<and> k \<in> set deferredMembers))"

text \<open>
  The listener returns the new state and the \<open>write\<close> calls it fulfils, or the exception
  that ends it. Resolving a deferred runs the continuation of \<open>write\<close>: it closes the
  interval at the time \<open>now\<close>, appends it to \<open>intervals\<close> and fulfils the caller; resolving
  it once more does nothing. \<open>pending[ts]\<close> is the entry stored under \<open>ts\<close>, else the member
  inherited under that name, which is truthy and has no method \<open>resolve\<close>, so that calling it
  is a type error; only \<open>pending['__proto__']\<close> is the prototype itself, and
  \<open>delete pending['__proto__']\<close> leaves it in place.
\<close>

definition finishedProcessing ::
  "string \<Rightarrow> int \<Rightarrow> cassie \<Rightarrow> jsError + cassie \<times> nat list" where
  "finishedProcessing msg now s =
     (let ts = tokenOf msg in
      if ts = ''__proto__'' then
        (case pendingProto s of
           ObjectPrototype \<Rightarrow> Inl TypeError
         | Unresolved d \<Rightarrow>
             Inr (s\<lparr> pendingProto := Resolved,
                      intervals := intervals s @ [\<lparr>start = opened d, finish = now\<rparr>] \<rparr>,
                  [waiter d])
         | Resolved \<Rightarrow> Inr (s, []))
      else
        (case pending s ts of
           Some d \<Rightarrow>
             Inr (s\<lparr> pending := (pending s)(ts := None),
                      intervals := intervals s @ [\<lparr>start = opened d, finish = now\<rparr>] \<rparr>,
                  [waiter d])
         | None \<Rightarrow>
             if inherits s ts then Inl TypeError
             else Inr (s\<lparr> finished := finished s @ [ts] \<rparr>, [])))"

subsection \<open>\<open>write\<close>\<close>

text \<open>
  What \<open>client.execute\<close> resolves to: \<open>rows\<close>, and \<open>info.warnings\<close>, which may be absent.
  A row is a table from column name to value.
\<close>

record resultSet =
  rows :: "(string \<rightharpoonup> int) list"
  warnings :: "string list option"

text \<open>
  The synchronous part of \<open>write\<close>: the value is appended to \<open>dbWrites\<close> and the interval is
  opened. The result is the new state and \<open>interval.start\<close>.
\<close>

definition write_begin :: "int \<Rightarrow> int \<Rightarrow> cassie \<Rightarrow> cassie \<times> int" where
  "write_begin v now s = (s\<lparr> dbWrites := dbWrites s @ [v] \<rparr>, now)"

text \<open>\<open>warnings[1]\<close>, which is \<open>undefined\<close> (\<open>None\<close>) when the array is shorter.\<close>

definition second :: "string list \<Rightarrow> string option" where
  "second ws = (case ws of _ # t # _ \<Rightarrow> Some t | _ \<Rightarrow> None)"

text \<open>\<open>finished.includes(ts)\<close>: the list holds strings only, so \<open>undefined\<close> is never in it.\<close>

definition includesTs :: "string list \<Rightarrow> string option \<Rightarrow> bool" where
  "includesTs fs ts = (case ts of None \<Rightarrow> False | Some t \<Rightarrow> t \<in> set fs)"

text \<open>The property key \<open>pending[ts]\<close> uses: \<open>undefined\<close> becomes the string of that name.\<close>

definition keyOf :: "string option \<Rightarrow> string" where
  "keyOf ts = (case ts of None \<Rightarrow> ''undefined'' | Some t \<Rightarrow> t)"

definition isDelay :: "resultSet \<Rightarrow> bool" where
  "isDelay r = (case warnings r of Some (w # _) \<Rightarrow> w = ''DELAY'' | _ \<Rightarrow> False)"

text \<open>
  \<open>pendingExecution(ts)\<close> assigns a new deferred to \<open>pending[ts]\<close>: it is stored under \<open>ts\<close>,
  or becomes the prototype when \<open>ts\<close> is \<open>__proto__\<close>. The continuation attached to its
  promise belongs to the \<open>write\<close> call \<open>w\<close> whose interval started at \<open>st\<close>.
\<close>

definition pendingExecution :: "string \<Rightarrow> nat \<Rightarrow> int \<Rightarrow> cassie \<Rightarrow> cassie" where
  "pendingExecution ts w st s =
     (if ts = ''__proto__''
      then s\<lparr> pendingProto := Unresolved \<lparr>waiter = w, opened = st\<rparr> \<rparr>
      else s\<lparr> pending := (pending s)(ts \<mapsto> \<lparr>waiter = w, opened = st\<rparr>) \<rparr>)"

text \<open>
  The callback \<open>write\<close> attaches to \<open>this.execute(query)\<close>, for the \<open>write\<close> call \<open>w\<close> whose
  interval started at \<open>st\<close>, run at the time \<open>now\<close> on what \<open>execute\<close> returned (\<open>None\<close> is
  \<open>undefined\<close>). It returns the new state and the \<open>write\<close> calls fulfilled, or the exception
  that ends it; reading \<open>result.info\<close> is the first thing it does, so an exception leaves
  the state as it was.
\<close>

definition write_then ::
  "nat \<Rightarrow> int \<Rightarrow> int \<Rightarrow> resultSet option \<Rightarrow> cassie \<Rightarrow> jsError + cassie \<times> nat list" where
  "write_then w st now result s =
     (case result of
        None \<Rightarrow> Inl TypeError
      | Some r \<Rightarrow>
          if isDelay r then
            (let s1 = s\<lparr> delayedRequests := delayedRequests s + 1 \<rparr>;
                 ts = second (the (warnings r))
             in if includesTs (finished s1) ts then
                  Inr (s1\<lparr> finished := remove1 (keyOf ts) (finished s1),
                           intervals := intervals s1 @ [\<lparr>start = st, finish = now\<rparr>] \<rparr>,
                       [w])
                else Inr (pendingExecution (keyOf ts) w st s1, []))
          else
            Inr (s\<lparr> intervals := intervals s @ [\<lparr>start = st, finish = now\<rparr>] \<rparr>, [w]))"

subsection \<open>\<open>execute\<close> and \<open>read\<close>\<close>

text \<open>
  The Cassandra driver is outside the program: \<open>client.execute\<close> is a parameter that, for a
  query and the choice between all hosts and node one, either throws or returns a result
  set.
\<close>

datatype 'a outcome = Threw string | Returned 'a

type_synonym client = "string \<Rightarrow> bool \<Rightarrow> resultSet outcome"

text \<open>
  \<open>execute\<close> returns what the driver returned, or logs the error and returns \<open>undefined\<close>
  (\<open>None\<close>). The second component is what it writes to the console.
\<close>

definition execute :: "client \<Rightarrow> string \<Rightarrow> bool \<Rightarrow> resultSet option \<times> string list" where
  "execute client query multiHost =
     (case client query multiHost of
        Returned result \<Rightarrow> (Some result, [])
      | Threw err \<Rightarrow> (None, [''Error with Cassandra query: '' @ err]))"

definition inQuotes :: "string \<Rightarrow> string" where
  "inQuotes str = [CHR 0x22] @ str @ [CHR 0x22]"

definition formatId :: "string \<Rightarrow> string" where
  "formatId deviceId = map (\<lambda>c. if c = CHR ''-'' then CHR ''_'' else c) deviceId"

text \<open>\<open>toLowerCase\<close>, on the letters of ASCII.\<close>

definition toLowerCase :: "string \<Rightarrow> string" where
  "toLowerCase str =
     map (\<lambda>c. let n = (of_char c :: nat) in if 65 \<le> n \<and> n \<le> 90 then char_of (n + 32) else c) str"

text \<open>The text JavaScript gives an integer when it is appended to a string.\<close>

fun digits :: "nat \<Rightarrow> string" where
  "digits n = (if n < 10 then [char_of (48 + n)] else digits (n div 10) @ [char_of (48 + n mod 10)])"

definition numberText :: "int \<Rightarrow> string" where
  "numberText i = (if i < 0 then CHR ''-'' # digits (nat (- i)) else digits (nat i))"

definition whereState :: string where
  "whereState = '' WHERE id='' @ [CHR 0x27] @ ''state'' @ [CHR 0x27] @ '';''"

text \<open>
  \<open>read\<close> returns the value of the column in the first row (\<open>None\<close> is \<open>undefined\<close>, for a
  row without the column), or the exception it ends with: \<open>result.rows\<close> of a result that
  is \<open>undefined\<close>, and \<open>row[propertyName]\<close> of a row that is \<open>undefined\<close>, are type errors.
\<close>

definition read :: "client \<Rightarrow> string \<Rightarrow> string \<Rightarrow> (jsError + int option) \<times> string list" where
  "read client deviceId propertyName =
     (let deviceId' = formatId (toLowerCase deviceId);
          propertyName' = toLowerCase propertyName;
          query = ''SELECT '' @ inQuotes propertyName' @ '' FROM '' @ inQuotes deviceId'
                  @ whereState
      in case execute client query True of
           (result, console) \<Rightarrow>
             (case result of
                None \<Rightarrow> Inl TypeError
              | Some r \<Rightarrow> (case rows r of [] \<Rightarrow> Inl TypeError | row # _ \<Rightarrow> Inr (row propertyName')),
              console))"

text \<open>
  A whole \<open>write\<close> call \<open>w\<close> whose acknowledgment arrives before any other event: the call at
  the time \<open>t0\<close>, the callback at the time \<open>t1\<close>. The result is the state afterwards, what
  became of the callback (the exception that ended it, in which case the promise of \<open>write\<close>
  is never settled, or the calls fulfilled) and the console output.
\<close>

definition write_whole ::
  "client \<Rightarrow> nat \<Rightarrow> string \<Rightarrow> string \<Rightarrow> int \<Rightarrow> int \<Rightarrow> int \<Rightarrow> cassie
     \<Rightarrow> cassie \<times> (jsError + nat list) \<times> string list" where
  "write_whole client w deviceId propertyName v t0 t1 s =
     (let deviceId' = inQuotes (formatId (toLowerCase deviceId));
          propertyName' = inQuotes (toLowerCase propertyName);
          query = ''UPDATE '' @ deviceId' @ '' SET '' @ propertyName' @ ''='' @ numberText v
                  @ whereState
      in case write_begin v t0 s of
           (s1, st) \<Rightarrow>
             (case execute client query True of
                (result, console) \<Rightarrow>
                  (case write_then w st t1 result s1 of
                     Inl err \<Rightarrow> (s1, Inl err, console)
                   | Inr (s2, fulfilled) \<Rightarrow> (s2, Inr fulfilled, console))))"

subsection \<open>The reset request of the property controller\<close>

text \<open>
  A \<open>PUT\<close> of a property with \<open>sequenceNumber\<close> \<open>-2\<close> resets the counters before the next
  test.
\<close>

definition reset :: "cassie \<Rightarrow> cassie" where
  "reset s = s\<lparr> count := 0, requests := [], notifications := [], intervals := [],
                delayedRequests := 0, localDetectionErrors := 0,
                globalDetectionErrors := 0, notPersistedErrors := 0, dbWrites := [] \<rparr>"

subsection \<open>Sequences of events\<close>

text \<open>
  What the correlator sees, one event at a time: the synchronous part of a \<open>write\<close> call,
  the acknowledgment of the write call \<open>w\<close> (with the \<open>start\<close> its interval got, the time,
  and what \<open>execute\<close> returned), a \<open>finishedProcessing\<close> message, a \<open>consistencyError\<close>
  message, a reset request. An acknowledgment whose callback throws, and a message whose
  listener throws, change nothing and fulfil nobody.
\<close>

datatype event =
    Begin int int
  | Ack nat int int "resultSet option"
  | Signal string int
  | Inconsistent string
  | Reset

fun step :: "event \<Rightarrow> cassie \<Rightarrow> cassie \<times> nat list" where
  "step (Begin v now) s = (fst (write_begin v now s), [])"
| "step (Ack w st now r) s = (case write_then w st now r s of Inl _ \<Rightarrow> (s, []) | Inr res \<Rightarrow> res)"
| "step (Signal msg now) s =
     (case finishedProcessing msg now s of Inl _ \<Rightarrow> (s, []) | Inr res \<Rightarrow> res)"
| "step (Inconsistent msg) s = (consistencyError msg s, [])"
| "step Reset s = (reset s, [])"

text \<open>The state after a sequence of events, and the \<open>write\<close> calls fulfilled, in order.\<close>

fun run :: "event list \<Rightarrow> cassie \<Rightarrow> cassie \<times> nat list" where
  "run [] s = (s, [])"
| "run (e # es) s =
     (case step e s of (s1, r1) \<Rightarrow> (case run es s1 of (s2, r2) \<Rightarrow> (s2, r1 @ r2)))"

text \<open>The \<open>write\<close> calls acknowledged by a sequence; a call is acknowledged once.\<close>

fun acked :: "event \<Rightarrow> nat list" where
  "acked (Ack w st now r) = [w]"
| "acked e = []"

definition ackIds :: "event list \<Rightarrow> nat list" where
  "ackIds evs = concat (map acked evs)"

text \<open>
  The storage contract: a \<open>DELAY\<close> warning is followed by its token, \<open>warnings[1]\<close>.
\<close>

fun carriesToken :: "event \<Rightarrow> bool" where
  "carriesToken (Ack w st now (Some r)) = (\<not> isDelay r \<or> second (the (warnings r)) \<noteq> None)"
| "carriesToken e = True"

text \<open>An acknowledgment with the delay indicator and the token \<open>t\<close>.\<close>

definition delayed :: "string \<Rightarrow> resultSet" where
  "delayed t = \<lparr> rows = [], warnings = Some [''DELAY'', t] \<rparr>"

text \<open>
  The pending correlation of a token: the deferred that a \<open>finishedProcessing\<close> message with
  that token resolves. It is the entry stored under the token; for the token \<open>__proto__\<close>,
  under which no entry is ever stored, it is the prototype while that is a deferred not
  yet resolved.
\<close>

definition correlation :: "cassie \<Rightarrow> string \<rightharpoonup> deferred" where
  "correlation s T =
     (if T = ''__proto__''
      then (case pendingProto s of Unresolved d \<Rightarrow> Some d | _ \<Rightarrow> None)
      else pending s T)"


text \<open>The \<open>write\<close> calls that wait for a message.\<close>

definition waiters :: "cassie \<Rightarrow> nat set" where
  "waiters s = waiter ` ran (correlation s)"

text \<open>No \<open>write\<close> call waits under two tokens.\<close>

definition oneToken :: "cassie \<Rightarrow> bool" where
  "oneToken s =
     (\<forall>k k' d d'. correlation s k = Some d \<and> correlation s k' = Some d' \<and> waiter d = waiter d'
        \<longrightarrow> k = k')"

text \<open>
  No token has at once a pending correlation and an entry in the finished list, and the
  token \<open>__proto__\<close> has no entry there.
\<close>

definition neverBoth :: "cassie \<Rightarrow> bool" where
  "neverBoth s =
     (dom (correlation s) \<inter> set (finished s) = {} \<and> ''__proto__'' \<notin> set (finished s))"

section \<open>The consistency report of the property controller\<close>

text \<open>
  A \<open>PUT\<close> of a property with \<open>sequenceNumber\<close> \<open>-1\<close> computes the summary of a test from the
  streams of \<open>cassie\<close>. Its numbers are JavaScript numbers; the streams hold integers, and
  the quotients are taken in the reals, which is what the floating-point division and
  \<open>Math.round\<close> give as long as the sums stay below \<open>2 ^ 52\<close>.
\<close>

text \<open>\<open>timeBetween\<close>, first for the notifications, then for the intervals.\<close>

definition notificationGaps :: "stamped list \<Rightarrow> int list" where
  "notificationGaps ns =
     concat (map (\<lambda>i. if i > 0 then [time (ns ! i) - time (ns ! (i - 1))] else [])
                 [0..<length ns])"

definition writeGaps :: "interval list \<Rightarrow> int list" where
  "writeGaps ivs = map (\<lambda>i. start (ivs ! i) - start (ivs ! (i - 1))) [1..<length ivs]"

text \<open>
  \<open>findAvg\<close>: \<open>reduce\<close> without a first value throws on an empty array.
\<close>

definition findAvg :: "int list \<Rightarrow> jsError + real" where
  "findAvg tb =
     (case tb of
        [] \<Rightarrow> Inl TypeError
      | a # rest \<Rightarrow> Inr (real_of_int (foldl (+) a rest) / real (length tb)))"

text \<open>\<open>Math.round\<close>: the nearest integer, a half going up.\<close>

definition Math_round :: "real \<Rightarrow> int" where
  "Math_round x = \<lfloor>x + 1 / 2\<rfloor>"

text \<open>
  The pattern used for each average: \<open>Math.round(findAvg(timeBetween))\<close> when the array
  has an entry, \<open>0\<close> otherwise.
\<close>

definition average :: "int list \<Rightarrow> jsError + int" where
  "average tb = (if length tb > 0 then map_sum id Math_round (findAvg tb) else Inr 0)"

text \<open>
  \<open>lostUpdates\<close>: \<open>0\<close> when the smallest write is not \<open>0\<close> (or there is none), then, for each
  pair of neighbours in the sorted writes, the integers strictly between them.
\<close>

definition lostUpdates :: "int list \<Rightarrow> int list" where
  "lostUpdates ws =
     (let sortedWrites = sort ws in
        (case sortedWrites of [] \<Rightarrow> [0] | x # _ \<Rightarrow> if x \<noteq> 0 then [0] else [])
        @ concat (map (\<lambda>i. let current = sortedWrites ! i; prev = sortedWrites ! (i - 1)
                            in if current - prev > 1 then [prev + 1..current - 1] else [])
                      [1..<length sortedWrites]))"

text \<open>
  The lines of \<open>str\<close>, one for each request: its number, its value, the value of the
  notification (\<open>None\<close> where the line says \<open>none\<close> or \<open>lost\<close>), the time between request and
  notification where the line has it, and the remark that ends the line.
\<close>

datatype remark = FlaggedAsLost | WrongValueFromDatabase | ReorderedByGateway | NoRemark

record line =
  number :: nat
  sent :: int
  notified :: "int option"
  elapsed :: "int option"
  remark :: remark

text \<open>The variables of the loop over the requests.\<close>

record scan =
  reqPointer :: nat
  notifPointer :: nat
  correctReq :: nat
  incorrectReq :: nat
  wrong :: nat
  dbReadWrongValue :: nat
  processingTime :: "int list"
  str :: "line list"

definition scanStart :: scan where
  "scanStart = \<lparr> reqPointer = 0, notifPointer = 0, correctReq = 0, incorrectReq = 0,
                 wrong = 0, dbReadWrongValue = 0, processingTime = [], str = [] \<rparr>"

text \<open>
  The body of the loop, run while \<open>reqPointer < length\<close>. In the branch of a lost update the
  line is built from \<open>notification.time\<close> with no test that there is a notification.
\<close>

definition classify :: "cassie \<Rightarrow> int list \<Rightarrow> scan \<Rightarrow> jsError + scan" where
  "classify c lost k =
     (let request = requests c ! reqPointer k;
          correct = (int (reqPointer k) = val request);
          k1 = (if correct then k\<lparr> correctReq := correctReq k + 1 \<rparr>
                else k\<lparr> incorrectReq := incorrectReq k + 1 \<rparr>);
          notification = (if notifPointer k < length (notifications c)
                          then Some (notifications c ! notifPointer k) else None)
      in if val request \<in> set lost then
           (case notification of
              None \<Rightarrow> Inl TypeError
            | Some n \<Rightarrow>
                Inr (k1\<lparr> str := str k1 @ [\<lparr> number = reqPointer k, sent = val request,
                                             notified = None,
                                             elapsed = Some (time n - time request),
                                             remark = FlaggedAsLost \<rparr>],
                         reqPointer := reqPointer k + 1 \<rparr>))
         else
           (case notification of
              None \<Rightarrow>
                Inr (k1\<lparr> str := str k1 @ [\<lparr> number = reqPointer k, sent = val request,
                                             notified = None, elapsed = None,
                                             remark = NoRemark \<rparr>],
                         reqPointer := reqPointer k + 1,
                         notifPointer := notifPointer k + 1 \<rparr>)
            | Some n \<Rightarrow>
                (let k2 = k1\<lparr> processingTime := processingTime k1 @ [time n - time request] \<rparr>
                 in if val request \<noteq> val n then
                      (if notifPointer k < length (dbWrites c)
                          \<and> val request = dbWrites c ! notifPointer k
                       then
                         Inr (k2\<lparr> str := str k2 @ [\<lparr> number = reqPointer k, sent = val request,
                                                      notified = Some (val n),
                                                      elapsed = Some (time n - time request),
                                                      remark = WrongValueFromDatabase \<rparr>],
                                  dbReadWrongValue := dbReadWrongValue k2 + 1,
                                  wrong := wrong k2 + 1,
                                  reqPointer := reqPointer k + 1,
                                  notifPointer := notifPointer k + 1 \<rparr>)
                       else
                         Inr (k2\<lparr> str := str k2 @ [\<lparr> number = reqPointer k, sent = val request,
                                                      notified = Some (val n),
                                                      elapsed = Some (time n - time request),
                                                      remark = ReorderedByGateway \<rparr>],
                                  wrong := wrong k2 + 1,
                                  reqPointer := reqPointer k + 1,
                                  notifPointer := notifPointer k + 1 \<rparr>))
                    else
                      Inr (k2\<lparr> str := str k2 @ [\<lparr> number = reqPointer k, sent = val request,
                                                   notified = Some (val n),
                                                   elapsed = Some (time n - time request),
                                                   remark = NoRemark \<rparr>],
                               reqPointer := reqPointer k + 1,
                               notifPointer := notifPointer k + 1 \<rparr>))))"

text \<open>The loop: it ends with the first exception, or when the requests are used up.\<close>

function scanAll :: "cassie \<Rightarrow> int list \<Rightarrow> scan \<Rightarrow> jsError + scan" where
  "scanAll c lost k =
     (if reqPointer k < length (requests c) then
        (case classify c lost k of Inl err \<Rightarrow> Inl err | Inr k' \<Rightarrow> scanAll c lost k')
      else Inr k)"
  by pat_completeness auto
termination
  by (relation "measure (\<lambda>(c, lost, k). length (requests c) - reqPointer k)")
     (auto simp: classify_def Let_def split: if_splits option.splits)

declare scanAll.simps [simp del]

text \<open>
  The count of overlapping intervals. The inner loop looks, for the interval \<open>i\<close>, through
  the intervals before it and stops at the first that finishes later; it adds one to
  \<open>overlapping\<close> then, and nothing when there is none.
\<close>

function inner :: "interval list \<Rightarrow> nat \<Rightarrow> nat \<Rightarrow> nat" where
  "inner ivs i j =
     (if j < i then
        (if finish (ivs ! j) > finish (ivs ! i) then 1 else inner ivs i (j + 1))
      else 0)"
  by pat_completeness auto
termination
  by (relation "measure (\<lambda>(ivs, i, j). i - j)") auto

declare inner.simps [simp del]

definition countOverlapping :: "interval list \<Rightarrow> nat" where
  "countOverlapping ivs = foldl (\<lambda>n i. n + inner ivs i 0) 0 [0..<length ivs]"

text \<open>
  The numbers of the summary. \<open>cassAvg\<close> is \<open>None\<close> where JavaScript has \<open>NaN\<close>, the rounded
  quotient of zero by zero.
\<close>

record summary =
  avgUpdate :: int
  avgWrite :: int
  scanned :: scan
  avgProcessingTime :: int
  cassAvg :: "int option"
  overlapping :: nat

text \<open>
  The report: the summary, and the state afterwards, in which \<open>intervals\<close> has been sorted
  by \<open>start\<close> in place; or the exception that ends the request.
\<close>

definition report :: "cassie \<Rightarrow> jsError + cassie \<times> summary" where
  "report c =
     (case average (notificationGaps (notifications c)) of Inl err \<Rightarrow> Inl err | Inr avgU \<Rightarrow>
      case average (writeGaps (intervals c)) of Inl err \<Rightarrow> Inl err | Inr avgW \<Rightarrow>
      case scanAll c (lostUpdates (dbWrites c)) scanStart of Inl err \<Rightarrow> Inl err | Inr k \<Rightarrow>
      case average (processingTime k) of Inl err \<Rightarrow> Inl err | Inr avgP \<Rightarrow>
        (let total = foldl (\<lambda>a iv. a + (finish iv - start iv)) 0 (intervals c);
             cAvg = (if intervals c = [] then None
                     else Some (Math_round (real_of_int total / real (length (intervals c)))));
             byStart = sort_key start (intervals c)
         in Inr (c\<lparr> intervals := byStart \<rparr>,
                 \<lparr> avgUpdate = avgU, avgWrite = avgW, scanned = k, avgProcessingTime = avgP,
                   cassAvg = cAvg, overlapping = countOverlapping byStart \<rparr>)))"

section \<open>The WebSocket handler of the things controller\<close>

text \<open>
  \<open>Things\<close>, \<open>AddonManager\<close> and \<open>Actions\<close> are event emitters; from each the handler needs
  the listeners of one event, in the order they were added. A listener is a closure, known
  by a number. The things and the subscriptions they hold are outside the handler: their
  state has the type \<open>'w\<close>. The interval timers that are running are a set.
\<close>

record 'w hub =
  thingAddedListeners :: "nat list"
  propertyChangedListeners :: "nat list"
  actionStatusListeners :: "nat list"
  timers :: "nat set"
  things :: 'w

text \<open>
  What one call of \<open>websocketHandler\<close> closes over: its three listeners, its timer, and
  \<open>thingCleanups\<close>, an object with one closure for each thing added, in the order of its
  keys. Such a closure calls the four \<open>remove...Subscription\<close> methods of its thing, which
  are not part of the handler: it is a function on the state of the things that may throw.
\<close>

record ('w, 'x) connection =
  onThingAdded :: nat
  onPropertyChanged :: nat
  onActionStatus :: nat
  heartbeatInterval :: nat
  thingCleanups :: "(string \<times> ('w \<Rightarrow> 'x + 'w)) list"

text \<open>
  \<open>removeListener\<close> of an event emitter removes one instance of the listener, the one added
  last, and does nothing when the listener is not there.
\<close>

definition removeListener :: "nat \<Rightarrow> nat list \<Rightarrow> nat list" where
  "removeListener l ls = rev (remove1 l (rev ls))"

definition clearInterval :: "nat \<Rightarrow> nat set \<Rightarrow> nat set" where
  "clearInterval t ts = ts - {t}"

text \<open>\<open>for (const id in thingCleanups) thingCleanups[id]()\<close>, ended by the first exception.\<close>

fun runCleanups :: "(string \<times> ('w \<Rightarrow> 'x + 'w)) list \<Rightarrow> 'w \<Rightarrow> 'x + 'w" where
  "runCleanups [] w = Inr w"
| "runCleanups ((thingId, thingCleanup) # rest) w =
     (case thingCleanup w of Inl err \<Rightarrow> Inl err | Inr w' \<Rightarrow> runCleanups rest w')"

text \<open>
  \<open>cleanup\<close>, the listener of both \<open>error\<close> and \<open>close\<close> of the socket: the closure variables
  and the emitters afterwards, or the exception of a thing's cleanup.
\<close>

definition cleanup ::
  "('w, 'x) connection \<Rightarrow> 'w hub \<Rightarrow> 'x + ('w, 'x) connection \<times> 'w hub" where
  "cleanup c h =
     (let h1 = h\<lparr> thingAddedListeners := removeListener (onThingAdded c) (thingAddedListeners h),
                  propertyChangedListeners :=
                    removeListener (onPropertyChanged c) (propertyChangedListeners h),
                  actionStatusListeners :=
                    removeListener (onActionStatus c) (actionStatusListeners h) \<rparr>
      in case runCleanups (thingCleanups c) (things h1) of
           Inl err \<Rightarrow> Inl err
         | Inr w \<Rightarrow>
             Inr (c\<lparr> thingCleanups := [] \<rparr>,
                  h1\<lparr> things := w, timers := clearInterval (heartbeatInterval c) (timers h1) \<rparr>))"

section \<open>Test runs\<close>

text \<open>
  States of \<open>cassie\<close> at the end of small test runs, on which the report is computed below.
\<close>

text \<open>Three writes in flight at times \<open>0\<close>--\<open>10\<close>, \<open>5\<close>--\<open>20\<close> and \<open>15\<close>--\<open>18\<close>.\<close>

definition threeWrites :: cassie where
  "threeWrites = init\<lparr> intervals := [\<lparr>start = 0, finish = 10\<rparr>, \<lparr>start = 5, finish = 20\<rparr>,
                                    \<lparr>start = 15, finish = 18\<rparr>] \<rparr>"

text \<open>Three writes, the first of which finishes after both of the others.\<close>

definition nestedWrites :: cassie where
  "nestedWrites = init\<lparr> intervals := [\<lparr>start = 0, finish = 30\<rparr>, \<lparr>start = 5, finish = 20\<rparr>,
                                     \<lparr>start = 15, finish = 18\<rparr>] \<rparr>"

text \<open>
  Requests \<open>0\<close>, \<open>1\<close>, \<open>2\<close>, of which \<open>1\<close> never reached the database, and the one
  notification that had arrived when the report was asked for.
\<close>

definition lostAtEnd :: cassie where
  "lostAtEnd = init\<lparr> requests := [\<lparr>val = 0, time = 10\<rparr>, \<lparr>val = 1, time = 20\<rparr>,
                                 \<lparr>val = 2, time = 30\<rparr>],
                     dbWrites := [0, 2],
                     notifications := [\<lparr>val = 0, time = 15\<rparr>] \<rparr>"

text \<open>One request, and notifications at the times \<open>100\<close>, \<open>150\<close> and \<open>180\<close>.\<close>

definition threeNotifications :: cassie where
  "threeNotifications =
     init\<lparr> requests := [\<lparr>val = 0, time = 95\<rparr>],
           dbWrites := [0],
           notifications := [\<lparr>val = 0, time = 100\<rparr>, \<lparr>val = 0, time = 150\<rparr>,
                             \<lparr>val = 0, time = 180\<rparr>] \<rparr>"

text \<open>One request with its notification, seven milliseconds later.\<close>

definition oneSample :: cassie where
  "oneSample = init\<lparr> requests := [\<lparr>val = 0, time = 0\<rparr>], dbWrites := [0],
                     notifications := [\<lparr>val = 0, time = 7\<rparr>] \<rparr>"

text \<open>Notifications at the times \<open>0\<close>, \<open>1\<close> and \<open>3\<close>.\<close>

definition unevenNotifications :: cassie where
  "unevenNotifications =
     init\<lparr> notifications := [\<lparr>val = 0, time = 0\<rparr>, \<lparr>val = 0, time = 1\<rparr>,
                             \<lparr>val = 0, time = 3\<rparr>] \<rparr>"

text \<open>
  A connection to all things with one thing added, next to the listeners and the timer of
  another connection. The state of the things is the number of subscriptions they hold; the
  cleanup of the lamp removes four.
\<close>

definition someConnection :: "(nat, unit) connection" where
  "someConnection = \<lparr> onThingAdded = 1, onPropertyChanged = 2, onActionStatus = 3,
                      heartbeatInterval = 7,
                      thingCleanups = [(''lamp'', \<lambda>w. Inr (w - 4))] \<rparr>"

definition someHub :: "nat hub" where
  "someHub = \<lparr> thingAddedListeners = [1, 11], propertyChangedListeners = [12, 2],
               actionStatusListeners = [3, 13], timers = {7, 17}, things = 8 \<rparr>"

section \<open>Properties\<close>

subsection \<open>The correlation of delayed writes with their completion signals\<close>

lemma consistencyError_correlation [simp]:
  "correlation (consistencyError msg s) = correlation s"
  by (rule ext) (simp add: consistencyError_def correlation_def)

lemma consistencyError_finished [simp]: "finished (consistencyError msg s) = finished s"
  by (simp add: consistencyError_def)

lemma correlation_pendingExecution:
  "correlation (pendingExecution k w st s) = (correlation s)(k \<mapsto> \<lparr>waiter = w, opened = st\<rparr>)"
  by (rule ext) (simp add: correlation_def pendingExecution_def)

lemma finished_pendingExecution [simp]: "finished (pendingExecution k w st s) = finished s"
  by (simp add: pendingExecution_def)

lemma correlation_frame:
  "pending s' = pending s \<Longrightarrow> pendingProto s' = pendingProto s \<Longrightarrow> correlation s' = correlation s"
  by (rule ext) (simp add: correlation_def)

lemma finishedProcessing_cases:
  assumes "finishedProcessing msg now s = Inr (s1, r1)"
  obtains (none) "correlation s (tokenOf msg) = None" "correlation s1 = correlation s" "r1 = []"
      "finished s1 = finished s
       \<or> (tokenOf msg \<noteq> ''__proto__'' \<and> finished s1 = finished s @ [tokenOf msg])"
    | (some) d where "correlation s (tokenOf msg) = Some d"
      "correlation s1 = (correlation s)(tokenOf msg := None)" "r1 = [waiter d]"
      "finished s1 = finished s"
proof (cases "tokenOf msg = ''__proto__''")
  case True
  show ?thesis
  proof (cases "pendingProto s")
    case ObjectPrototype
    with True assms show ?thesis by (simp add: finishedProcessing_def Let_def)
  next
    case (Unresolved d)
    with True assms have "s1 = s\<lparr> pendingProto := Resolved,
        intervals := intervals s @ [\<lparr>start = opened d, finish = now\<rparr>] \<rparr>" "r1 = [waiter d]"
      by (auto simp: finishedProcessing_def Let_def)
    with True Unresolved show ?thesis
      by (intro some[of d]) (auto simp: correlation_def)
  next
    case Resolved
    with True assms have "s1 = s" "r1 = []" by (auto simp: finishedProcessing_def Let_def)
    with True Resolved show ?thesis by (intro none) (auto simp: correlation_def)
  qed
next
  case False
  show ?thesis
  proof (cases "pending s (tokenOf msg)")
    case None
    with False assms have "s1 = s\<lparr> finished := finished s @ [tokenOf msg] \<rparr>" "r1 = []"
      by (auto simp: finishedProcessing_def Let_def split: if_splits)
    with False None show ?thesis by (intro none) (auto simp: correlation_def)
  next
    case (Some d)
    with False assms have "s1 = s\<lparr> pending := (pending s)(tokenOf msg := None),
        intervals := intervals s @ [\<lparr>start = opened d, finish = now\<rparr>] \<rparr>" "r1 = [waiter d]"
      by (auto simp: finishedProcessing_def Let_def)
    with False Some show ?thesis by (intro some[of d]) (auto simp: correlation_def)
  qed
qed

lemma write_then_cases:
  assumes "write_then w st now r s = Inr (s1, r1)"
  obtains (now) "correlation s1 = correlation s" "r1 = [w]" "set (finished s1) \<subseteq> set (finished s)"
      "finished s1 = finished s
       \<or> (\<exists>rs. r = Some rs \<and> isDelay rs
             \<and> finished s1 = remove1 (keyOf (second (the (warnings rs)))) (finished s))"
    | (later) rs where "r = Some rs" "isDelay rs"
      "\<not> includesTs (finished s) (second (the (warnings rs)))"
      "correlation s1
       = (correlation s)(keyOf (second (the (warnings rs))) \<mapsto> \<lparr>waiter = w, opened = st\<rparr>)"
      "r1 = []" "finished s1 = finished s"
proof (cases r)
  case None
  with assms show ?thesis by (simp add: write_then_def)
next
  case (Some rs)
  show ?thesis
  proof (cases "isDelay rs \<and> \<not> includesTs (finished s) (second (the (warnings rs)))")
    case True
    with Some assms
    have "s1 = pendingExecution (keyOf (second (the (warnings rs)))) w st
                 (s\<lparr> delayedRequests := delayedRequests s + 1 \<rparr>)" "r1 = []"
      by (auto simp: write_then_def Let_def)
    moreover have "correlation (s\<lparr> delayedRequests := delayedRequests s + 1 \<rparr>) = correlation s"
      by (rule correlation_frame) simp_all
    ultimately show ?thesis
      using Some True by (intro later[of rs]) (simp_all add: correlation_pendingExecution)
  next
    case False
    from False Some assms have "correlation s1 = correlation s" "r1 = [w]"
      "set (finished s1) \<subseteq> set (finished s)"
      "finished s1 = finished s
       \<or> (\<exists>rs. r = Some rs \<and> isDelay rs
             \<and> finished s1 = remove1 (keyOf (second (the (warnings rs)))) (finished s))"
      by (auto simp: write_then_def Let_def correlation_def split: if_splits
          dest: subsetD[OF set_remove1_subset])
    then show ?thesis by (rule now)
  qed
qed

lemma same_correlation:
  "correlation s' = correlation s \<Longrightarrow> oneToken s' = oneToken s \<and> waiters s' = waiters s"
  by (simp add: oneToken_def waiters_def)


lemma store_fresh:
  assumes "oneToken s" and "w \<notin> waiters s"
    and "correlation s' = (correlation s)(k \<mapsto> \<lparr>waiter = w, opened = st\<rparr>)"
  shows "oneToken s' \<and> waiters s' \<subseteq> insert w (waiters s)"
proof -
  have free: "\<forall>k d. correlation s k = Some d \<longrightarrow> waiter d \<noteq> w"
    using assms(2) by (auto simp: waiters_def ran_def)
  have "oneToken s'"
    unfolding oneToken_def
  proof (intro allI impI)
    fix a b d d'
    assume h: "correlation s' a = Some d \<and> correlation s' b = Some d' \<and> waiter d = waiter d'"
    show "a = b"
    proof (rule ccontr)
      assume ne: "a \<noteq> b"
      show False
      proof (cases "a = k")
        case True
        with ne h assms(3) have "waiter d = w" "correlation s b = Some d'" by auto
        with h free show False by metis
      next
        case False
        note ak = this
        show False
        proof (cases "b = k")
          case True
          with ne h assms(3) have "waiter d' = w" "correlation s a = Some d" by auto
          with h free show False by metis
        next
          case False
          with ak h assms(3) have "correlation s a = Some d" "correlation s b = Some d'" by auto
          with h assms(1) ne show False unfolding oneToken_def by blast
        qed
      qed
    qed
  qed
  moreover have "waiters s' \<subseteq> insert w (waiters s)"
    using assms(3) by (auto simp: waiters_def ran_def split: if_splits)
  ultimately show ?thesis by simp
qed

lemma take_pending:
  assumes "oneToken s" and "correlation s k = Some d"
    and "correlation s' = (correlation s)(k := None)"
  shows "oneToken s' \<and> waiter d \<notin> waiters s' \<and> waiters s' \<subseteq> waiters s \<and> waiter d \<in> waiters s"
proof -
  have a: "oneToken s'"
    using assms(1,3) unfolding oneToken_def by (auto split: if_splits)
  have b: "waiter d \<notin> waiters s'"
    using assms unfolding oneToken_def waiters_def ran_def by (auto split: if_splits)
  have c: "waiters s' \<subseteq> waiters s"
    using assms(3) by (auto simp: waiters_def ran_def split: if_splits)
  have d: "waiter d \<in> waiters s"
    using assms(2) by (auto simp: waiters_def ran_def)
  show ?thesis using a b c d by simp
qed

lemma step_keeps:
  assumes "oneToken s" and "set (acked e) \<inter> waiters s = {}" and "step e s = (s1, r1)"
  shows "oneToken s1 \<and> distinct r1 \<and> set r1 \<inter> waiters s1 = {}
         \<and> waiters s1 \<union> set r1 \<subseteq> waiters s \<union> set (acked e)"
proof (cases e)
  case (Begin v now)
  with assms(3) have "correlation s1 = correlation s" "r1 = []"
    by (auto simp: write_begin_def intro: correlation_frame)
  with assms(1) same_correlation[of s1 s] show ?thesis by simp
next
  case (Inconsistent msg)
  with assms(3) have "correlation s1 = correlation s" "r1 = []"
    by auto
  with assms(1) same_correlation[of s1 s] show ?thesis by simp
next
  case Reset
  with assms(3) have "correlation s1 = correlation s" "r1 = []"
    by (auto simp: reset_def intro: correlation_frame)
  with assms(1) same_correlation[of s1 s] show ?thesis by simp
next
  case (Signal msg now)
  show ?thesis
  proof (cases "finishedProcessing msg now s")
    case (Inl err)
    with Signal assms(3) have "s1 = s" "r1 = []" by auto
    with assms(1) show ?thesis by simp
  next
    case (Inr res)
    with Signal assms(3) have fp: "finishedProcessing msg now s = Inr (s1, r1)" by auto
    from fp show ?thesis
    proof (cases rule: finishedProcessing_cases)
      case none
      with assms(1) same_correlation[of s1 s] show ?thesis by simp
    next
      case (some d)
      with take_pending[OF assms(1) some(1), of s1] show ?thesis by auto
    qed
  qed
next
  case (Ack w st now r)
  with assms(2) have fresh: "w \<notin> waiters s" by simp
  show ?thesis
  proof (cases "write_then w st now r s")
    case (Inl err)
    with Ack assms(3) have "s1 = s" "r1 = []" by auto
    with assms(1) show ?thesis by simp
  next
    case (Inr res)
    with Ack assms(3) have wt: "write_then w st now r s = Inr (s1, r1)" by auto
    from wt show ?thesis
    proof (cases rule: write_then_cases)
      case now
      with assms(1) fresh same_correlation[of s1 s] Ack show ?thesis by simp
    next
      case (later rs)
      with store_fresh[OF assms(1) fresh later(4)] Ack show ?thesis by auto
    qed
  qed
qed

lemma run_distinct:
  "oneToken s \<Longrightarrow> distinct (ackIds evs) \<Longrightarrow> set (ackIds evs) \<inter> waiters s = {}
   \<Longrightarrow> distinct (snd (run evs s)) \<and> set (snd (run evs s)) \<subseteq> waiters s \<union> set (ackIds evs)"
proof (induction evs arbitrary: s)
  case Nil
  then show ?case by simp
next
  case (Cons e es)
  obtain s1 r1 where st: "step e s = (s1, r1)" by (cases "step e s")
  obtain s2 r2 where rn: "run es s1 = (s2, r2)" by (cases "run es s1")
  from Cons.prems have d: "distinct (acked e)" "distinct (ackIds es)"
    "set (acked e) \<inter> set (ackIds es) = {}"
    "set (acked e) \<inter> waiters s = {}" "set (ackIds es) \<inter> waiters s = {}"
    by (auto simp: ackIds_def)
  from step_keeps[OF Cons.prems(1) d(4) st]
  have k: "oneToken s1" "distinct r1" "set r1 \<inter> waiters s1 = {}"
    "waiters s1 \<union> set r1 \<subseteq> waiters s \<union> set (acked e)" by simp_all
  have "set (ackIds es) \<inter> waiters s1 = {}" using k(4) d(3,5) by blast
  from Cons.IH[OF k(1) d(2) this] rn
  have ih: "distinct r2" "set r2 \<subseteq> waiters s1 \<union> set (ackIds es)" by simp_all
  have "set r1 \<inter> set r2 = {}" using ih(2) k(3,4) d(3,5) by blast
  moreover have "set (r1 @ r2) \<subseteq> waiters s \<union> set (ackIds (e # es))"
    using ih(2) k(4) by (auto simp: ackIds_def)
  ultimately show ?case using st rn k(2) ih(1) by simp
qed

lemma init_oneToken: "oneToken init \<and> waiters init = {}"
  by (auto simp: oneToken_def waiters_def init_def correlation_def ran_def)

lemma tokenOf_17: "tokenOf ''finished 17'' = ''17''"
  by (simp add: tokenOf_def)

lemma tokenOf_18: "tokenOf ''finished 18'' = ''18''"
  by (simp add: tokenOf_def)


lemma isDelay_delayed: "isDelay (delayed t) \<and> second (the (warnings (delayed t))) = Some t"
  by (simp add: isDelay_def delayed_def second_def)

lemma step_neverBoth:
  assumes "carriesToken e" and "neverBoth s"
  shows "neverBoth (fst (step e s))"
proof (cases e)
  case (Begin v now)
  have "correlation (s\<lparr> dbWrites := dbWrites s @ [v] \<rparr>) = correlation s"
    by (rule correlation_frame) simp_all
  with Begin assms(2) show ?thesis by (simp add: write_begin_def neverBoth_def)
next
  case (Inconsistent msg)
  with assms(2) show ?thesis by (simp add: neverBoth_def)
next
  case Reset
  have "correlation (reset s) = correlation s"
    by (rule correlation_frame) (simp_all add: reset_def)
  with Reset assms(2) show ?thesis by (simp add: reset_def neverBoth_def)
next
  case (Signal msg now)
  show ?thesis
  proof (cases "finishedProcessing msg now s")
    case (Inl err)
    with Signal assms(2) show ?thesis by simp
  next
    case (Inr res)
    then have fp: "finishedProcessing msg now s = Inr (fst res, snd res)" by simp
    from fp have "neverBoth (fst res)"
    proof (cases rule: finishedProcessing_cases)
      case none
      with assms(2) show ?thesis by (auto simp: neverBoth_def disjoint_iff)
    next
      case (some d)
      with assms(2) show ?thesis by (auto simp: neverBoth_def disjoint_iff split: if_splits)
    qed
    with Signal Inr show ?thesis by simp
  qed
next
  case (Ack w st now r)
  show ?thesis
  proof (cases "write_then w st now r s")
    case (Inl err)
    with Ack assms(2) show ?thesis by simp
  next
    case (Inr res)
    then have wt: "write_then w st now r s = Inr (fst res, snd res)" by simp
    from wt have "neverBoth (fst res)"
    proof (cases rule: write_then_cases)
      case now
      with assms(2) show ?thesis by (auto simp: neverBoth_def disjoint_iff)
    next
      case (later rs)
      with Ack assms(1) obtain t where t: "second (the (warnings rs)) = Some t" by auto
      with later(3) have "t \<notin> set (finished s)" by (simp add: includesTs_def)
      with later t assms(2) show ?thesis
        by (auto simp: neverBoth_def disjoint_iff keyOf_def split: if_splits)
    qed
    with Ack Inr show ?thesis by simp
  qed
qed

lemma run_neverBoth:
  "list_all carriesToken evs \<Longrightarrow> neverBoth s \<Longrightarrow> neverBoth (fst (run evs s))"
proof (induction evs arbitrary: s)
  case Nil
  then show ?case by simp
next
  case (Cons e es)
  then have "neverBoth (fst (step e s))" by (simp add: step_neverBoth)
  with Cons.IH[of "fst (step e s)"] Cons.prems(1) show ?case
    by (simp add: case_prod_unfold)
qed

lemma init_neverBoth: "neverBoth init"
  by (simp add: neverBoth_def init_def correlation_def dom_def)



lemmas eval_cassie = ackIds_def write_then_def finishedProcessing_def tokenOf_def isDelay_def
  delayed_def second_def includesTs_def keyOf_def pendingExecution_def init_def Let_def
  inherits_def inheritedMembers_def deferredMembers_def correlation_def write_begin_def

text \<open>
  C1. Every \<open>write\<close> call is fulfilled at most once, whatever the order of acknowledgments
  and \<open>finishedProcessing\<close> messages: in the calls fulfilled by a sequence of events that
  starts in the constructor's state and acknowledges each call once, no call occurs twice.
  A message whose token has a pending correlation does not throw, fulfils the call waiting
  on it and removes the correlation, so the same message delivered again fulfils nobody.
\<close>

theorem write_resolved_at_most_once:
  "(distinct (ackIds evs) \<longrightarrow> distinct (snd (run evs init)))
   \<and> (correlation s (tokenOf msg) = Some d \<longrightarrow>
        map_sum id snd (finishedProcessing msg now s) = Inr [waiter d]
        \<and> snd (step (Signal msg now) s) = [waiter d]
        \<and> correlation (fst (step (Signal msg now) s)) (tokenOf msg) = None
        \<and> snd (step (Signal msg now') (fst (step (Signal msg now) s))) = [])"
proof (intro conjI impI)
  assume "distinct (ackIds evs)"
  with run_distinct[of init evs] init_oneToken show "distinct (snd (run evs init))"
    by simp
next
  assume c: "correlation s (tokenOf msg) = Some d"
  obtain s1 where fp: "finishedProcessing msg now s = Inr (s1, [waiter d])"
    and c1: "correlation s1 (tokenOf msg) = None"
    using c by (cases "pendingProto s")
      (auto simp: finishedProcessing_def correlation_def Let_def split: if_splits)
  show "map_sum id snd (finishedProcessing msg now s) = Inr [waiter d]"
    and "snd (step (Signal msg now) s) = [waiter d]"
    and "correlation (fst (step (Signal msg now) s)) (tokenOf msg) = None"
    using fp c1 by simp_all
  have "snd (step (Signal msg now') s1) = []"
  proof (cases "finishedProcessing msg now' s1")
    case (Inl err)
    then show ?thesis by simp
  next
    case (Inr res)
    then have "finishedProcessing msg now' s1 = Inr (fst res, snd res)" by simp
    then have "snd res = []"
      using c1 by (cases rule: finishedProcessing_cases) simp_all
    with Inr show ?thesis by simp
  qed
  with fp show "snd (step (Signal msg now') (fst (step (Signal msg now) s))) = []" by simp
qed

theorem write_resolved_at_most_once_witness:
  "distinct (ackIds [Ack 1 0 5 (Some (delayed ''17'')), Signal ''finished 17'' 9,
                     Signal ''finished 17'' 12, Ack 2 10 14 (Some (delayed ''17''))])
   \<and> snd (run [Ack 1 0 5 (Some (delayed ''17'')), Signal ''finished 17'' 9,
                Signal ''finished 17'' 12, Ack 2 10 14 (Some (delayed ''17''))] init) = [1, 2]
   \<and> distinct (snd (run [Ack 1 0 5 (Some (delayed ''17'')), Signal ''finished 17'' 9,
                Signal ''finished 17'' 12, Ack 2 10 14 (Some (delayed ''17''))] init))
   \<and> correlation (fst (step (Ack 1 0 5 (Some (delayed ''17''))) init)) (tokenOf ''finished 17'')
     = Some \<lparr>waiter = 1, opened = 0\<rparr>
   \<and> snd (step (Signal ''finished 17'' 9) (fst (step (Ack 1 0 5 (Some (delayed ''17''))) init)))
     = [1]
   \<and> snd (step (Signal ''finished 17'' 12)
            (fst (step (Signal ''finished 17'' 9)
                    (fst (step (Ack 1 0 5 (Some (delayed ''17''))) init))))) = []"
  using write_resolved_at_most_once
          [of "[Ack 1 0 5 (Some (delayed ''17'')), Signal ''finished 17'' 9,
                Signal ''finished 17'' 12, Ack 2 10 14 (Some (delayed ''17''))]"
              "fst (step (Ack 1 0 5 (Some (delayed ''17''))) init)" "''finished 17''"
              "\<lparr>waiter = 1, opened = 0\<rparr>" 9 12]
  by (simp add: eval_cassie)




text \<open>
  C3, as the code has it. After every sequence of events starting in the constructor's
  state, in which every delay indicator carries its token, no token has at once a pending
  correlation and an entry in the finished list; in particular no token is both a key of
  the pending table and an entry of the finished list.
\<close>

theorem token_never_pending_and_finished:
  "list_all carriesToken evs \<Longrightarrow>
     dom (correlation (fst (run evs init))) \<inter> set (finished (fst (run evs init))) = {}
     \<and> dom (pending (fst (run evs init))) \<inter> set (finished (fst (run evs init))) = {}"
proof -
  assume "list_all carriesToken evs"
  with run_neverBoth[of evs init] init_neverBoth
  have "neverBoth (fst (run evs init))" by simp
  then have c: "dom (correlation (fst (run evs init))) \<inter> set (finished (fst (run evs init))) = {}"
    and p: "''__proto__'' \<notin> set (finished (fst (run evs init)))"
    by (simp_all add: neverBoth_def)
  have "dom (pending (fst (run evs init))) \<inter> set (finished (fst (run evs init))) = {}"
  proof (rule ccontr)
    assume "dom (pending (fst (run evs init))) \<inter> set (finished (fst (run evs init))) \<noteq> {}"
    then obtain T where T: "T \<in> dom (pending (fst (run evs init)))"
      "T \<in> set (finished (fst (run evs init)))" by blast
    with p have "T \<noteq> ''__proto__''" by blast
    with T(1) have "T \<in> dom (correlation (fst (run evs init)))"
      by (simp add: correlation_def dom_def)
    with c T(2) show False by blast
  qed
  with c show ?thesis by simp
qed

theorem token_never_pending_and_finished_witness:
  "list_all carriesToken [Signal ''finished 17'' 1, Signal ''finished 17'' 2,
       Ack 1 0 5 (Some (delayed ''18'')), Ack 2 3 6 (Some (delayed ''17''))]
   \<and> dom (pending (fst (run [Signal ''finished 17'' 1, Signal ''finished 17'' 2,
       Ack 1 0 5 (Some (delayed ''18'')), Ack 2 3 6 (Some (delayed ''17''))] init)))
     \<inter> set (finished (fst (run [Signal ''finished 17'' 1, Signal ''finished 17'' 2,
       Ack 1 0 5 (Some (delayed ''18'')), Ack 2 3 6 (Some (delayed ''17''))] init))) = {}
   \<and> finished (fst (run [Signal ''finished 17'' 1, Signal ''finished 17'' 2,
       Ack 1 0 5 (Some (delayed ''18'')), Ack 2 3 6 (Some (delayed ''17''))] init)) = [''17'']
   \<and> pending (fst (run [Signal ''finished 17'' 1, Signal ''finished 17'' 2,
       Ack 1 0 5 (Some (delayed ''18'')), Ack 2 3 6 (Some (delayed ''17''))] init)) ''18''
     = Some \<lparr>waiter = 1, opened = 0\<rparr>"
  using token_never_pending_and_finished[of "[Signal ''finished 17'' 1, Signal ''finished 17'' 2,
       Ack 1 0 5 (Some (delayed ''18'')), Ack 2 3 6 (Some (delayed ''17''))]"]
  by (simp add: eval_cassie)

text \<open>
  The same \<open>finishedProcessing\<close> message delivered twice with no write pending leaves its
  token twice in the finished list, and a token that was never seen is in neither table.
  A delay indicator without a token is stored under the key \<open>undefined\<close>, also when the
  finished list holds the token of that name.
\<close>

theorem finished_marker_duplicated:
  "finished (fst (run [Signal ''finished 17'' 1, Signal ''finished 17'' 2] init)) = [''17'', ''17'']
   \<and> \<not> distinct (finished (fst (run [Signal ''finished 17'' 1, Signal ''finished 17'' 2] init)))
   \<and> ''17'' \<notin> dom (pending init) \<and> ''17'' \<notin> set (finished init)
   \<and> ''undefined'' \<in> dom (pending (fst (run [Signal ''finished undefined'' 1,
          Ack 1 0 2 (Some \<lparr>rows = [], warnings = Some [''DELAY'']\<rparr>)] init)))
   \<and> ''undefined'' \<in> set (finished (fst (run [Signal ''finished undefined'' 1,
          Ack 1 0 2 (Some \<lparr>rows = [], warnings = Some [''DELAY'']\<rparr>)] init)))"
  by (simp add: eval_cassie)

subsection \<open>Lost updates\<close>

lemma gaps_set:
  "set (concat (map (\<lambda>i. let current = sw ! i; prev = sw ! (i - 1)
                            in if current - prev > 1 then [prev + 1..current - 1] else [])
                      [1..<length sw]))
   = {x. \<exists>i. 1 \<le> i \<and> i < length sw \<and> sw ! (i - 1) < x \<and> x < sw ! i}"
  by (auto simp: Let_def)

lemma between_neighbours:
  assumes "sorted (sw :: int list)"
  shows "{x. \<exists>i. 1 \<le> i \<and> i < length sw \<and> sw ! (i - 1) < x \<and> x < sw ! i}
         = {x. x \<notin> set sw \<and> (\<exists>a\<in>set sw. a < x) \<and> (\<exists>b\<in>set sw. x < b)}"
proof (intro set_eqI iffI; clarify)
  fix x i
  assume i: "1 \<le> i" "i < length sw" "sw ! (i - 1) < x" "x < sw ! i"
  have "x \<notin> set sw"
  proof
    assume "x \<in> set sw"
    then obtain m where m: "m < length sw" "sw ! m = x" by (auto simp: in_set_conv_nth)
    show False
    proof (cases "m < i")
      case True
      then have "m \<le> i - 1" by simp
      with assms i(2) have "sw ! m \<le> sw ! (i - 1)" by (simp add: sorted_nth_mono)
      with m i(3) show False by simp
    next
      case False
      then have "i \<le> m" by simp
      with assms m(1) have "sw ! i \<le> sw ! m" by (simp add: sorted_nth_mono)
      with m i(4) show False by simp
    qed
  qed
  moreover have "sw ! (i - 1) \<in> set sw" "sw ! i \<in> set sw" using i by simp_all
  ultimately show "x \<notin> set sw \<and> (\<exists>a\<in>set sw. a < x) \<and> (\<exists>b\<in>set sw. x < b)"
    using i(3,4) by blast
next
  fix x a b
  assume x: "x \<notin> set sw" and a: "a \<in> set sw" "a < x" and b: "b \<in> set sw" "x < b"
  from b obtain m where m: "m < length sw" "x < sw ! m" by (auto simp: in_set_conv_nth)
  define i where "i = (LEAST m. m < length sw \<and> x < sw ! m)"
  have il: "i < length sw \<and> x < sw ! i"
    unfolding i_def using m by (rule_tac LeastI[of _ m]) simp
  have least: "\<And>n. n < i \<Longrightarrow> \<not> (n < length sw \<and> x < sw ! n)"
    unfolding i_def by (rule not_less_Least)
  from a obtain n where n: "n < length sw" "sw ! n = a" by (auto simp: in_set_conv_nth)
  have "i \<noteq> 0"
  proof
    assume "i = 0"
    with assms n(1) have "sw ! i \<le> sw ! n" by (simp add: sorted_nth_mono)
    with il n a show False by simp
  qed
  then have pos: "1 \<le> i" "i - 1 < i" by simp_all
  with il have "i - 1 < length sw" by simp
  with least[OF pos(2)] have "sw ! (i - 1) \<le> x" by simp
  moreover have "sw ! (i - 1) \<noteq> x" using x \<open>i - 1 < length sw\<close> by (metis nth_mem)
  ultimately have "sw ! (i - 1) < x" by simp
  with pos il show "\<exists>i. 1 \<le> i \<and> i < length sw \<and> sw ! (i - 1) < x \<and> x < sw ! i" by blast
qed

lemma sorted_head:
  "(case sort ws of [] \<Rightarrow> [0] | x # _ \<Rightarrow> if x \<noteq> 0 then [0] else [])
   = (if ws = [] \<or> Min (set ws) \<noteq> (0::int) then [0] else [])"
proof (cases "sort ws")
  case Nil
  then have "ws = []" by (metis length_sort length_0_conv)
  with Nil show ?thesis by simp
next
  case (Cons x xs)
  then have ne: "ws \<noteq> []" by auto
  have "sorted (x # xs)" "set (x # xs) = set ws" using Cons by (metis sorted_sort, metis set_sort)
  then have "Min (set ws) = x"
    by (metis List.finite_set Min_eqI list.set_intros(1) set_ConsD sorted_simps(2) order_refl)
  with Cons ne show ?thesis by simp
qed

lemma lostUpdates_set:
  "set (lostUpdates ws)
   = (if ws = [] \<or> Min (set ws) \<noteq> 0 then {0} else {})
     \<union> {x. x \<notin> set ws \<and> (\<exists>a\<in>set ws. a < x) \<and> (\<exists>b\<in>set ws. x < b)}"
proof -
  have "sorted (sort ws)" by simp
  from between_neighbours[OF this] show ?thesis
    unfolding lostUpdates_def Let_def set_append gaps_set[unfolded Let_def] sorted_head
    by simp
qed

lemma lostUpdates_with_zero:
  assumes "0 \<in> set ws" and "\<forall>x\<in>set ws. 0 \<le> x"
  shows "set (lostUpdates ws) = {0..Max (set ws)} - set ws"
proof -
  have ne: "ws \<noteq> []" using assms(1) by auto
  have "Min (set ws) = 0" using assms by (intro Min_eqI) auto
  with ne have l: "set (lostUpdates ws)
      = {x. x \<notin> set ws \<and> (\<exists>a\<in>set ws. a < x) \<and> (\<exists>b\<in>set ws. x < b)}"
    by (simp add: lostUpdates_set)
  have mx: "Max (set ws) \<in> set ws" using ne by (intro Max_in) auto
  show ?thesis
  proof (intro set_eqI iffI)
    fix x assume "x \<in> set (lostUpdates ws)"
    with l obtain a b where ab: "x \<notin> set ws" "a \<in> set ws" "a < x" "b \<in> set ws" "x < b"
      by auto
    have "b \<le> Max (set ws)" using ab(4) by simp
    moreover have "0 \<le> a" using ab(2) assms(2) by simp
    ultimately have "0 \<le> x" "x \<le> Max (set ws)" using ab(3,5) by simp_all
    with ab(1) show "x \<in> {0..Max (set ws)} - set ws" by simp
  next
    fix x assume x: "x \<in> {0..Max (set ws)} - set ws"
    with assms(1) have "0 < x" by (cases "x = 0") auto
    moreover from x mx have "x < Max (set ws)" by (cases "x = Max (set ws)") auto
    ultimately show "x \<in> set (lostUpdates ws)" using l x assms(1) mx by auto
  qed
qed

text \<open>
  C4. When the values written are drawn from \<open>0, ..., N - 1\<close>, with \<open>N - 1\<close> the largest
  value written, the values flagged as lost should be the integers of that range that were
  not written, and the writes \<open>0, 1, 3, 4\<close> give just \<open>2\<close>. The code does so whenever \<open>0\<close> was
  written (\<open>lostUpdates_with_zero\<close>). When the smallest value written is not \<open>0\<close> it flags
  \<open>0\<close> and nothing else below that value: after the writes \<open>2, 3\<close> the value \<open>1\<close> is missing
  from the range and is not flagged.
\<close>

theorem lost_updates_miss_leading_values:
  "lostUpdates [0, 1, 3, 4] = [2]
   \<and> lostUpdates [2, 3] = [0]
   \<and> 1 \<in> {0..Max (set [2, 3 :: int])} - set [2, 3]
   \<and> 1 \<notin> set (lostUpdates [2, 3])"
  by (simp add: lostUpdates_def Let_def upto.simps)

subsection \<open>Overlapping intervals\<close>

lemma inner_found:
  "inner ivs i j = (if \<exists>m. j \<le> m \<and> m < i \<and> finish (ivs ! i) < finish (ivs ! m) then 1 else 0)"
proof (induction ivs i j rule: inner.induct)
  case (1 ivs i j)
  show ?case
  proof (cases "j < i")
    case False
    then show ?thesis by (simp add: inner.simps[of ivs i j])
  next
    case True
    note ji = this
    show ?thesis
    proof (cases "finish (ivs ! i) < finish (ivs ! j)")
      case True
      with ji have "\<exists>m. j \<le> m \<and> m < i \<and> finish (ivs ! i) < finish (ivs ! m)" by blast
      with ji True show ?thesis by (simp add: inner.simps[of ivs i j])
    next
      case False
      have "(\<exists>m. j \<le> m \<and> m < i \<and> finish (ivs ! i) < finish (ivs ! m))
            = (\<exists>m. j + 1 \<le> m \<and> m < i \<and> finish (ivs ! i) < finish (ivs ! m))"
        using False by (metis Suc_eq_plus1 Suc_leI le_neq_implies_less add_leD1)
      with "1.IH"[OF ji] False ji show ?thesis by (simp add: inner.simps[of ivs i j])
    qed
  qed
qed

lemma foldl_count:
  "foldl (\<lambda>n i. n + (if P i then 1 else 0)) a xs = a + length (filter P xs)"
  by (induction xs arbitrary: a) auto

lemma countOverlapping_filter:
  "countOverlapping ivs
   = length (filter (\<lambda>i. \<exists>j<i. finish (ivs ! i) < finish (ivs ! j)) [0..<length ivs])"
  unfolding countOverlapping_def inner_found by (simp add: foldl_count)

lemma length_filter_upt_card:
  "length (filter P [0..<n]) = card {i. i < n \<and> P i}"
proof -
  have "card (set (filter P [0..<n])) = length (filter P [0..<n])"
    by (rule distinct_card) simp
  moreover have "set (filter P [0..<n]) = {i. i < n \<and> P i}" by auto
  ultimately show ?thesis by simp
qed

lemma report_overlapping:
  "report c = Inr (c', out) \<Longrightarrow>
     overlapping out = countOverlapping (sort_key start (intervals c))
     \<and> intervals c' = sort_key start (intervals c)"
  by (auto simp: report_def Let_def split: sum.splits)

lemmas eval_report = report_def init_def average_def notificationGaps_def writeGaps_def
  lostUpdates_def findAvg_def Math_round_def Let_def scanStart_def countOverlapping_def
  upt_rec scanAll.simps inner.simps classify_def

lemma report_threeWrites:
  "report threeWrites
   = Inr (threeWrites, \<lparr> avgUpdate = 0, avgWrite = 8, scanned = scanStart, avgProcessingTime = 0,
                          cassAvg = Some 9, overlapping = 1 \<rparr>)"
  by (simp add: threeWrites_def eval_report)

text \<open>
  C5, as the code has it. The overlap count of the report is the number of intervals,
  taken in the order of their \<open>start\<close>, that finish before some interval earlier in that
  order finishes. An interval is counted once however many earlier intervals finish after
  it: the inner loop stops at the first. For the intervals \<open>0\<close>--\<open>10\<close>, \<open>5\<close>--\<open>20\<close>,
  \<open>15\<close>--\<open>18\<close> the count is \<open>1\<close>.
\<close>

theorem overlap_count_is_intervals_not_pairs:
  "report c = Inr (c', out) \<Longrightarrow>
     overlapping out
     = card {i. i < length (intervals c')
                \<and> (\<exists>j<i. finish (intervals c' ! i) < finish (intervals c' ! j))}
     \<and> intervals c' = sort_key start (intervals c)"
  using report_overlapping[of c c' out]
  by (simp add: countOverlapping_filter length_filter_upt_card)

theorem overlap_count_is_intervals_not_pairs_witness:
  "report threeWrites
   = Inr (threeWrites, \<lparr> avgUpdate = 0, avgWrite = 8, scanned = scanStart, avgProcessingTime = 0,
                          cassAvg = Some 9, overlapping = 1 \<rparr>)
   \<and> card {i. i < length (intervals threeWrites)
              \<and> (\<exists>j<i. finish (intervals threeWrites ! i) < finish (intervals threeWrites ! j))}
     = 1
   \<and> intervals threeWrites = sort_key start (intervals threeWrites)"
  using overlap_count_is_intervals_not_pairs[OF report_threeWrites] report_threeWrites
  by simp

text \<open>
  The count is not the number of pairs: of the intervals \<open>0\<close>--\<open>30\<close>, \<open>5\<close>--\<open>20\<close>,
  \<open>15\<close>--\<open>18\<close>, three pairs have the later interval finish first, and the count is \<open>2\<close>.
\<close>

theorem overlap_count_not_pairs:
  "map_sum id (overlapping \<circ> snd) (report nestedWrites) = Inr 2
   \<and> length (filter (\<lambda>(i, j). j < i \<and> finish (intervals nestedWrites ! i)
                                        < finish (intervals nestedWrites ! j))
                    (List.product [0..<3] [0..<3])) = 3"
  by (simp add: nestedWrites_def eval_report)

subsection \<open>The loop over the requests\<close>

lemma classify_mismatch:
  assumes "val (requests c ! reqPointer k) \<notin> set lost"
    and "notifPointer k < length (notifications c)"
    and "val (requests c ! reqPointer k) \<noteq> val (notifications c ! notifPointer k)"
  shows "\<exists>k'. classify c lost k = Inr k'
           \<and> reqPointer k' = reqPointer k + 1 \<and> notifPointer k' = notifPointer k + 1
           \<and> wrong k' = wrong k + 1
           \<and> length (str k') = length (str k) + 1
           \<and> remark (last (str k'))
             = (if notifPointer k < length (dbWrites c)
                   \<and> val (requests c ! reqPointer k) = dbWrites c ! notifPointer k
                then WrongValueFromDatabase else ReorderedByGateway)
           \<and> dbReadWrongValue k'
             = (if notifPointer k < length (dbWrites c)
                   \<and> val (requests c ! reqPointer k) = dbWrites c ! notifPointer k
                then dbReadWrongValue k + 1 else dbReadWrongValue k)"
  using assms by (simp add: classify_def Let_def)

lemma classify_lost:
  assumes "val (requests c ! reqPointer k) \<in> set lost"
  shows "if notifPointer k < length (notifications c)
         then \<exists>k'. classify c lost k = Inr k'
                \<and> reqPointer k' = reqPointer k + 1 \<and> notifPointer k' = notifPointer k
                \<and> remark (last (str k')) = FlaggedAsLost
         else classify c lost k = Inl TypeError"
  using assms by (simp add: classify_def Let_def)

text \<open>
  C6. A request that is not flagged lost and whose value differs from that of the current
  notification is marked as a wrong value from the database when its value is the entry of
  \<open>dbWrites\<close> at the notification pointer and as reordered by the gateway otherwise, and
  both pointers advance (\<open>classify_mismatch\<close>); a lost request should advance the request
  pointer only. The code does that while a notification is left (\<open>classify_lost\<close>). When
  the request is lost and the notifications are used up, the line it builds reads the time
  of a notification that is not there: the loop ends with a type error and no pointer
  advances. Here request \<open>1\<close> was lost and only the notification of request \<open>0\<close> had arrived.
\<close>

theorem lost_request_without_notification_throws:
  "lostUpdates (dbWrites lostAtEnd) = [1]
   \<and> classify lostAtEnd [1] (scanStart\<lparr> reqPointer := 1, notifPointer := 1, correctReq := 1,
                                        processingTime := [5],
                                        str := [\<lparr> number = 0, sent = 0, notified = Some 0,
                                                  elapsed = Some 5, remark = NoRemark \<rparr>] \<rparr>)
     = Inl TypeError
   \<and> scanAll lostAtEnd (lostUpdates (dbWrites lostAtEnd)) scanStart = Inl TypeError
   \<and> report lostAtEnd = Inl TypeError"
  by (simp add: lostAtEnd_def init_def lostUpdates_def Let_def classify_def scanStart_def
      scanAll.simps report_def average_def notificationGaps_def writeGaps_def upto.simps)

subsection \<open>The averages\<close>

lemma foldl_plus_sum: "foldl (+) (a::int) xs = a + sum_list xs"
  by (induction xs arbitrary: a) auto

lemma average_mean:
  "average tb
   = Inr (if tb = [] then 0 else Math_round (real_of_int (sum_list tb) / real (length tb)))"
  by (cases tb) (simp_all add: average_def findAvg_def foldl_plus_sum)

lemma skip_none:
  "\<forall>i\<in>set xs. 0 < i \<Longrightarrow> concat (map (\<lambda>i. if i > 0 then [f i] else []) xs) = map f xs"
  by (induction xs) auto

lemma skip_first:
  "concat (map (\<lambda>i. if i > 0 then [f i] else []) [0..<n]) = map f [1..<n]"
proof (cases n)
  case 0
  then show ?thesis by simp
next
  case (Suc m)
  have "concat (map (\<lambda>i. if i > 0 then [f i] else []) [1..<n]) = map f [1..<n]"
    by (rule skip_none) simp
  moreover have "[0..<n] = 0 # [1..<n]" using Suc by (simp add: upt_rec[of 0])
  ultimately show ?thesis by simp
qed

lemma average_gaps:
  "average (map f [1..<n])
   = Inr (if n < 2 then 0
          else Math_round (real_of_int (sum_list (map f [1..<n])) / real (n - 1)))"
proof (cases "n < 2")
  case True
  then have "[1..<n] = []" by simp
  with True show ?thesis by (simp add: average_def)
next
  case False
  then have "map f [1..<n] \<noteq> []" "length (map f [1..<n]) = n - 1" by simp_all
  with False show ?thesis by (simp only: average_mean if_False)
qed

lemma notificationGaps_map:
  "notificationGaps ns = map (\<lambda>i. time (ns ! i) - time (ns ! (i - 1))) [1..<length ns]"
  unfolding notificationGaps_def by (rule skip_first)

lemma classify_cases:
  assumes "reqPointer k < length (requests c)" and "classify c lost k = Inr k'"
  shows "reqPointer k' = Suc (reqPointer k)
    \<and> (if val (requests c ! reqPointer k) \<in> set lost
        then notifPointer k' = notifPointer k \<and> processingTime k' = processingTime k
             \<and> notifPointer k < length (notifications c)
        else notifPointer k' = Suc (notifPointer k)
             \<and> processingTime k'
               = processingTime k
                 @ (if notifPointer k < length (notifications c)
                    then [time (notifications c ! notifPointer k)
                          - time (requests c ! reqPointer k)]
                    else []))"
  using assms(2) by (auto simp: classify_def Let_def split: if_splits option.splits)

lemma scanAll_times:
  "scanAll c lost k = Inr k' \<Longrightarrow>
     processingTime k'
     = processingTime k
       @ map (\<lambda>(r, n). time n - time r)
           (zip (filter (\<lambda>r. val r \<notin> set lost) (drop (reqPointer k) (requests c)))
                (drop (notifPointer k) (notifications c)))"
proof (induction c lost k rule: scanAll.induct)
  case (1 c lost k)
  show ?case
  proof (cases "reqPointer k < length (requests c)")
    case False
    with "1.prems" show ?thesis by (simp add: scanAll.simps[of c lost k])
  next
    case True
    with "1.prems" obtain k1 where k1: "classify c lost k = Inr k1" "scanAll c lost k1 = Inr k'"
      by (auto simp: scanAll.simps[of c lost k] split: sum.splits)
    note ih = "1.IH"[OF True k1(1) k1(2)]
    note cc = classify_cases[OF True k1(1)]
    have dr: "drop (reqPointer k) (requests c)
              = requests c ! reqPointer k # drop (Suc (reqPointer k)) (requests c)"
      using True by (simp add: Cons_nth_drop_Suc)
    show ?thesis
    proof (cases "val (requests c ! reqPointer k) \<in> set lost")
      case True
      with cc ih dr show ?thesis by simp
    next
      case False
      note notlost = this
      show ?thesis
      proof (cases "notifPointer k < length (notifications c)")
        case True
        then have dn: "drop (notifPointer k) (notifications c)
              = notifications c ! notifPointer k # drop (Suc (notifPointer k)) (notifications c)"
          by (simp add: Cons_nth_drop_Suc)
        from cc ih notlost True show ?thesis by (simp add: dr dn)
      next
        case False
        with cc ih notlost show ?thesis by simp
      qed
    qed
  qed
qed

lemma report_threeNotifications:
  "report threeNotifications
   = Inr (threeNotifications,
          \<lparr> avgUpdate = 40, avgWrite = 0,
            scanned = \<lparr> reqPointer = 1, notifPointer = 1, correctReq = 1, incorrectReq = 0,
                        wrong = 0, dbReadWrongValue = 0, processingTime = [5],
                        str = [\<lparr> number = 0, sent = 0, notified = Some 0, elapsed = Some 5,
                                  remark = NoRemark \<rparr>] \<rparr>,
            avgProcessingTime = 5, cassAvg = None, overlapping = 0 \<rparr>)"
  by (simp add: threeNotifications_def eval_report)

text \<open>
  C7, as the code has it. Each of the three averages of the report is the arithmetic mean
  of its differences rounded to the nearest integer, a half going up, and \<open>0\<close> when there is
  no difference to average: the time between notifications with fewer than two
  notifications, the time between writes with fewer than two intervals, and the processing
  time when no request that is not flagged lost has a notification. The processing times
  are those of the requests not flagged lost, paired in order with the notifications. The
  notification times \<open>100, 150, 180\<close> give \<open>40\<close>.
\<close>

theorem averages_are_rounded_means:
  assumes "report c = Inr (c', out)"
  shows "avgUpdate out
         = (if length (notifications c) < 2 then 0
            else Math_round
                   (real_of_int (\<Sum>i\<leftarrow>[1..<length (notifications c)].
                        time (notifications c ! i) - time (notifications c ! (i - 1)))
                    / real (length (notifications c) - 1)))
    \<and> avgWrite out
         = (if length (intervals c) < 2 then 0
            else Math_round
                   (real_of_int (\<Sum>i\<leftarrow>[1..<length (intervals c)].
                        start (intervals c ! i) - start (intervals c ! (i - 1)))
                    / real (length (intervals c) - 1)))
    \<and> avgProcessingTime out
         = (let pairs = zip (filter (\<lambda>r. val r \<notin> set (lostUpdates (dbWrites c))) (requests c))
                            (notifications c)
            in if pairs = [] then 0
               else Math_round (real_of_int (\<Sum>(r, n)\<leftarrow>pairs. time n - time r)
                                / real (length pairs)))"
proof -
  from assms obtain k where
    u: "average (notificationGaps (notifications c)) = Inr (avgUpdate out)" and
    w: "average (writeGaps (intervals c)) = Inr (avgWrite out)" and
    k: "scanAll c (lostUpdates (dbWrites c)) scanStart = Inr k" and
    p: "average (processingTime k) = Inr (avgProcessingTime out)"
    by (auto simp: report_def Let_def split: sum.splits)
  have a: "avgUpdate out
         = (if length (notifications c) < 2 then 0
            else Math_round
                   (real_of_int (\<Sum>i\<leftarrow>[1..<length (notifications c)].
                        time (notifications c ! i) - time (notifications c ! (i - 1)))
                    / real (length (notifications c) - 1)))"
    using u unfolding notificationGaps_map average_gaps by simp
  have b: "avgWrite out
         = (if length (intervals c) < 2 then 0
            else Math_round
                   (real_of_int (\<Sum>i\<leftarrow>[1..<length (intervals c)].
                        start (intervals c ! i) - start (intervals c ! (i - 1)))
                    / real (length (intervals c) - 1)))"
    using w unfolding writeGaps_def average_gaps by simp
  from scanAll_times[OF k]
  have "processingTime k
        = map (\<lambda>(r, n). time n - time r)
            (zip (filter (\<lambda>r. val r \<notin> set (lostUpdates (dbWrites c))) (requests c))
                 (notifications c))"
    by (simp add: scanStart_def)
  with p have c: "avgProcessingTime out
         = (let pairs = zip (filter (\<lambda>r. val r \<notin> set (lostUpdates (dbWrites c))) (requests c))
                            (notifications c)
            in if pairs = [] then 0
               else Math_round (real_of_int (\<Sum>(r, n)\<leftarrow>pairs. time n - time r)
                                / real (length pairs)))"
    unfolding average_mean Let_def by (simp only: sum.inject length_map map_is_Nil_conv)
  show ?thesis by (intro conjI) (rule a, rule b, rule c)
qed

theorem averages_are_rounded_means_witness:
  "report threeNotifications
   = Inr (threeNotifications,
          \<lparr> avgUpdate = 40, avgWrite = 0,
            scanned = \<lparr> reqPointer = 1, notifPointer = 1, correctReq = 1, incorrectReq = 0,
                        wrong = 0, dbReadWrongValue = 0, processingTime = [5],
                        str = [\<lparr> number = 0, sent = 0, notified = Some 0, elapsed = Some 5,
                                  remark = NoRemark \<rparr>] \<rparr>,
            avgProcessingTime = 5, cassAvg = None, overlapping = 0 \<rparr>)
   \<and> Math_round (real_of_int (\<Sum>i\<leftarrow>[1..<length (notifications threeNotifications)].
                      time (notifications threeNotifications ! i)
                      - time (notifications threeNotifications ! (i - 1)))
                  / real (length (notifications threeNotifications) - 1)) = 40
   \<and> length (intervals threeNotifications) < 2"
  using averages_are_rounded_means[OF report_threeNotifications] report_threeNotifications
  by (simp add: threeNotifications_def init_def)

text \<open>
  A single request with its notification has the processing time of that request as its
  average, not \<open>0\<close>; and the differences \<open>1\<close> and \<open>2\<close> have the average \<open>2\<close>, not their mean.
\<close>

theorem average_not_mean_nor_zero:
  "map_sum id (avgProcessingTime \<circ> snd) (report oneSample) = Inr 7
   \<and> length (requests oneSample) = 1 \<and> length (notifications oneSample) = 1
   \<and> map_sum id (avgUpdate \<circ> snd) (report unevenNotifications) = Inr 2
   \<and> notificationGaps (notifications unevenNotifications) = [1, 2]
   \<and> real_of_int 2 \<noteq> real_of_int (sum_list [1, 2]) / real (length [1 :: int, 2])"
  by (simp add: oneSample_def unevenNotifications_def eval_report)

subsection \<open>Failures of the storage\<close>

text \<open>
  C8. When \<open>client.execute\<close> throws, \<open>execute\<close> logs the error and returns \<open>undefined\<close>, and
  its callers should bear the missing result. \<open>read\<close> and the callback of \<open>write\<close> do not:
  each reads a property of the result first, which is a type error. \<open>read\<close> ends with it;
  in \<open>write\<close> the value has been appended to \<open>dbWrites\<close>, no interval is recorded and
  nobody is fulfilled.
\<close>

theorem storage_failure_breaks_callers:
  "execute (\<lambda>query multiHost. Threw err) q m = (None, [''Error with Cassandra query: '' @ err])
   \<and> read (\<lambda>query multiHost. Threw err) deviceId propertyName
     = (Inl TypeError, [''Error with Cassandra query: '' @ err])
   \<and> write_then w st now None s = Inl TypeError
   \<and> write_whole (\<lambda>query multiHost. Threw err) w deviceId propertyName v t0 t1 s
     = (s\<lparr> dbWrites := dbWrites s @ [v] \<rparr>, Inl TypeError,
        [''Error with Cassandra query: '' @ err])"
  by (simp add: execute_def read_def write_then_def write_whole_def write_begin_def Let_def)

subsection \<open>The cleanup of a connection\<close>

lemma removeListener_absent: "l \<notin> set ls \<Longrightarrow> removeListener l ls = ls"
  by (simp add: removeListener_def remove1_idem)

lemma removeListener_once:
  assumes "count_list ls l \<le> 1"
  shows "l \<notin> set (removeListener l ls)"
proof -
  have c: "count_list (rev ls) l \<le> 1" using assms by (simp add: count_list_rev)
  have "\<And>xs. count_list xs l \<le> 1 \<Longrightarrow> l \<notin> set (remove1 l xs)"
  proof -
    fix xs show "count_list xs l \<le> 1 \<Longrightarrow> l \<notin> set (remove1 l xs)"
      by (induction xs) (auto simp: count_list_0_iff)
  qed
  from this[OF c] show ?thesis by (simp add: removeListener_def)
qed

lemma removeListener_length: "length ls \<le> Suc (length (removeListener l ls))"
  by (simp add: removeListener_def length_remove1) arith

text \<open>
  C9. When each of the three listeners of the connection is registered at most once, as
  the handler registers them, and \<open>cleanup\<close> has run without an exception, running it
  again changes nothing and throws nothing. After the first run none of the three listeners
  is registered, each list of listeners is shorter by at most one, the timer is not
  running, \<open>thingCleanups\<close> is empty, and the things are in the state reached by running each
  thing's cleanup once.
\<close>

theorem cleanup_twice:
  assumes "count_list (thingAddedListeners h) (onThingAdded c) \<le> 1"
    and "count_list (propertyChangedListeners h) (onPropertyChanged c) \<le> 1"
    and "count_list (actionStatusListeners h) (onActionStatus c) \<le> 1"
    and "cleanup c h = Inr (c', h')"
  shows "cleanup c' h' = Inr (c', h')
    \<and> onThingAdded c \<notin> set (thingAddedListeners h')
    \<and> onPropertyChanged c \<notin> set (propertyChangedListeners h')
    \<and> onActionStatus c \<notin> set (actionStatusListeners h')
    \<and> heartbeatInterval c \<notin> timers h'
    \<and> length (thingAddedListeners h) \<le> Suc (length (thingAddedListeners h'))
    \<and> length (propertyChangedListeners h) \<le> Suc (length (propertyChangedListeners h'))
    \<and> length (actionStatusListeners h) \<le> Suc (length (actionStatusListeners h'))
    \<and> thingCleanups c' = []
    \<and> runCleanups (thingCleanups c) (things h) = Inr (things h')"
proof -
  from assms(4) obtain w where w: "runCleanups (thingCleanups c) (things h) = Inr w"
    and c': "c' = c\<lparr> thingCleanups := [] \<rparr>"
    and h': "h' = h\<lparr> thingAddedListeners := removeListener (onThingAdded c) (thingAddedListeners h),
                  propertyChangedListeners :=
                    removeListener (onPropertyChanged c) (propertyChangedListeners h),
                  actionStatusListeners :=
                    removeListener (onActionStatus c) (actionStatusListeners h),
                  things := w, timers := clearInterval (heartbeatInterval c) (timers h) \<rparr>"
    by (auto simp: cleanup_def Let_def split: sum.splits)
  note gone = removeListener_once[OF assms(1)] removeListener_once[OF assms(2)]
    removeListener_once[OF assms(3)]
  have again: "cleanup c' h' = Inr (c', h')"
    using gone by (simp add: cleanup_def c' h' removeListener_absent clearInterval_def)
  show ?thesis
    using again gone w by (simp add: c' h' clearInterval_def removeListener_length)
qed

theorem cleanup_twice_witness:
  "count_list (thingAddedListeners someHub) (onThingAdded someConnection) \<le> 1
   \<and> count_list (propertyChangedListeners someHub) (onPropertyChanged someConnection) \<le> 1
   \<and> count_list (actionStatusListeners someHub) (onActionStatus someConnection) \<le> 1
   \<and> cleanup someConnection someHub
     = Inr (someConnection\<lparr> thingCleanups := [] \<rparr>,
            \<lparr> thingAddedListeners = [11], propertyChangedListeners = [12],
              actionStatusListeners = [13], timers = {17}, things = 4 \<rparr>)
   \<and> cleanup (someConnection\<lparr> thingCleanups := [] \<rparr>)
        \<lparr> thingAddedListeners = [11], propertyChangedListeners = [12],
          actionStatusListeners = [13], timers = {17}, things = 4 \<rparr>
     = Inr (someConnection\<lparr> thingCleanups := [] \<rparr>,
            \<lparr> thingAddedListeners = [11], propertyChangedListeners = [12],
              actionStatusListeners = [13], timers = {17}, things = 4 \<rparr>)"
  using cleanup_twice[of someHub someConnection "someConnection\<lparr> thingCleanups := [] \<rparr>"
      "\<lparr> thingAddedListeners = [11], propertyChangedListeners = [12],
         actionStatusListeners = [13], timers = {17}, things = 4 \<rparr>"]
  by (simp add: someHub_def someConnection_def cleanup_def removeListener_def clearInterval_def
      Let_def)

subsection \<open>The reset request\<close>

text \<open>
  C10. The reset request sets the notification count and the four counters to zero and
  empties the request, notification, interval and database-write streams; it leaves the
  pending table with its prototype and the finished list as they were, so a delayed write
  still waiting when the reset happens is fulfilled by its completion signal afterwards,
  and a completion signal recorded before the reset still lets its write finish at once.
\<close>

theorem reset_clears_streams_keeps_correlation:
  "count (reset s) = 0 \<and> requests (reset s) = [] \<and> notifications (reset s) = []
   \<and> intervals (reset s) = [] \<and> dbWrites (reset s) = []
   \<and> delayedRequests (reset s) = 0 \<and> localDetectionErrors (reset s) = 0
   \<and> globalDetectionErrors (reset s) = 0 \<and> notPersistedErrors (reset s) = 0
   \<and> pending (reset s) = pending s \<and> finished (reset s) = finished s
   \<and> pendingProto (reset s) = pendingProto s
   \<and> map_sum id snd (finishedProcessing msg now (reset s))
     = map_sum id snd (finishedProcessing msg now s)
   \<and> snd (step (Signal msg now) (reset s)) = snd (step (Signal msg now) s)
   \<and> map_sum id snd (write_then w st now r (reset s)) = map_sum id snd (write_then w st now r s)"
proof -
  have p: "pending (reset s) = pending s" and f: "finished (reset s) = finished s"
    and q: "pendingProto (reset s) = pendingProto s"
    by (simp_all add: reset_def)
  have i: "inherits (reset s) (tokenOf msg) = inherits s (tokenOf msg)"
    by (simp add: inherits_def q)
  have sig: "map_sum id snd (finishedProcessing msg now (reset s))
             = map_sum id snd (finishedProcessing msg now s)"
    by (simp add: finishedProcessing_def Let_def p q i split: option.splits prototype.splits)
  have stp: "snd (step (Signal msg now) (reset s)) = snd (step (Signal msg now) s)"
    using sig by (cases "finishedProcessing msg now (reset s)";
                  cases "finishedProcessing msg now s") auto
  have ack: "map_sum id snd (write_then w st now r (reset s))
             = map_sum id snd (write_then w st now r s)"
    by (simp add: write_then_def Let_def f pendingExecution_def split: option.splits)
  show ?thesis
    using p f q sig stp ack by (simp add: reset_def)
qed

end
